theory Spec2Isabelle
  imports Main "HOL-Library.Word"
begin

unbundle bit_operations_syntax

section \<open>Data model\<close>

text \<open>
  The codec of \<^verbatim>\<open>client/src/lib/steganography.ts\<close> works on the \<^verbatim>\<open>data\<close> array of a
  canvas \<^verbatim>\<open>ImageData\<close> (a \<^verbatim>\<open>Uint8ClampedArray\<close> of R, G, B, A samples) and on
  JavaScript strings, which are sequences of 16-bit UTF-16 code units. The strings that
  hold binary digits only ever contain the characters \<^verbatim>\<open>'0'\<close> and \<^verbatim>\<open>'1'\<close>; they are
  lists of booleans here, \<open>True\<close> standing for \<^verbatim>\<open>'1'\<close>.
\<close>

type_synonym sample = "8 word"
type_synonym jschar = "16 word"
type_synonym jsstring = "jschar list"
type_synonym binary = "bool list"

text \<open>
  The only exception the codec throws itself: \<^verbatim>\<open>Message too long. Maximum capacity: N
  characters\<close>, with the capacity it reports.
\<close>

datatype error = CapacityExceeded int

text \<open>
  Calls of the optional \<^verbatim>\<open>onProgress\<close> callback. The percentage passed is computed in
  floating point from the loop index and the pixel count (encode) or from the bit counts
  (decode); the log keeps these integers. \<open>Complete\<close> is the final \<^verbatim>\<open>onProgress(100)\<close>.
\<close>

datatype progress = EncodeProgress nat nat | DecodeProgress nat "nat option" | Complete

section \<open>Helpers\<close>

text \<open>\<^verbatim>\<open>ToInt32\<close>, the conversion behind \<^verbatim>\<open><<\<close> and \<^verbatim>\<open>&\<close>.\<close>

definition toInt32 :: "int \<Rightarrow> int" where
  "toInt32 x = (x + 2 ^ 31) mod 2 ^ 32 - 2 ^ 31"

primrec simpleHash_loop :: "jsstring \<Rightarrow> int \<Rightarrow> int" where
  "simpleHash_loop [] hash = hash"
| "simpleHash_loop (char # str) hash =
     simpleHash_loop str (toInt32 ((toInt32 (hash * 2 ^ 5) - hash) + int (unat char)))"

definition simpleHash :: "jsstring \<Rightarrow> nat" where
  "simpleHash str = nat \<bar>simpleHash_loop str 0\<bar>"

text \<open>\<^verbatim>\<open>n.toString(2)\<close> for a non-negative integer.\<close>

function toString2 :: "nat \<Rightarrow> binary" where
  "toString2 n = (if n < 2 then [n = 1] else toString2 (n div 2) @ [n mod 2 = 1])"
  by pat_completeness auto
termination
  by (relation "measure (\<lambda>n. n)") auto

declare toString2.simps [simp del]

definition padStart :: "nat \<Rightarrow> binary \<Rightarrow> binary" where
  "padStart targetLength s = replicate (targetLength - length s) False @ s"

text \<open>\<^verbatim>\<open>parseInt(s, 2)\<close> on a string of binary digits; \<open>None\<close> is \<^verbatim>\<open>NaN\<close> (the empty string).\<close>

definition parseInt2 :: "binary \<Rightarrow> nat option" where
  "parseInt2 s =
     (if s = [] then None else Some (foldl (\<lambda>acc b. 2 * acc + (if b then 1 else 0)) 0 s))"

text \<open>\<^verbatim>\<open>String.fromCharCode\<close>: the argument modulo \<open>2^16\<close>, and \<^verbatim>\<open>NaN\<close> gives code unit 0.\<close>

definition fromCharCode :: "nat option \<Rightarrow> jschar" where
  "fromCharCode v = (case v of None \<Rightarrow> 0 | Some n \<Rightarrow> of_nat n)"

definition stringToBinary :: "jsstring \<Rightarrow> binary" where
  "stringToBinary str = concat (map (\<lambda>char. padStart 8 (toString2 (unat char))) str)"

text \<open>\<^verbatim>\<open>binary.match(/.{1,8}/g) || []\<close>: greedy groups of eight, the last one shorter.\<close>

function match_1_8 :: "binary \<Rightarrow> binary list" where
  "match_1_8 bs = (if bs = [] then [] else take 8 bs # match_1_8 (drop 8 bs))"
  by pat_completeness auto
termination
  by (relation "measure length") auto

declare match_1_8.simps [simp del]

definition binaryToString :: "binary \<Rightarrow> jsstring" where
  "binaryToString b = map (\<lambda>chunk. fromCharCode (parseInt2 chunk)) (match_1_8 b)"

text \<open>
  \<^verbatim>\<open>calculateCapacity\<close> on integers. The source computes in double-precision numbers,
  which is the same for non-negative integer dimensions as long as \<open>width * height * 3\<close>
  stays below \<open>2^53\<close>; the dimensions of a canvas, and of a buffer of
  \<open>width * height * 4\<close> samples, are far below that.
\<close>

definition calculateCapacity :: "int \<Rightarrow> int \<Rightarrow> int" where
  "calculateCapacity width height =
     (let totalBits = width * height * 3;
          metadataBits = 64;
          availableBits = totalBits - metadataBits
      in availableBits div 8)"

text \<open>
  The masking step, the same expression in \<^verbatim>\<open>encodeMessage\<close> and \<^verbatim>\<open>decodeMessage\<close>:
  \<^verbatim>\<open>message.split('').map((char, i) => String.fromCharCode(char.charCodeAt(0) ^ ((key + i) % 256))).join('')\<close>.
\<close>

definition xorWithKey :: "nat \<Rightarrow> jsstring \<Rightarrow> jsstring" where
  "xorWithKey key message =
     map (\<lambda>(i, char). fromCharCode (Some (unat char XOR ((key + i) mod 256))))
       (enumerate 0 message)"

text \<open>\<^verbatim>\<open>if (password)\<close>: \<^verbatim>\<open>undefined\<close> and the empty string are falsy.\<close>

definition applyPassword :: "jsstring option \<Rightarrow> jsstring \<Rightarrow> jsstring" where
  "applyPassword password message =
     (case password of
        None \<Rightarrow> message
      | Some p \<Rightarrow> if p = [] then message else xorWithKey (simpleHash p) message)"

section \<open>Encoder\<close>

text \<open>The inner loop over the three colour channels of the pixel that starts at \<open>i\<close>.\<close>

function encode_channels :: "binary \<Rightarrow> nat \<Rightarrow> nat \<Rightarrow> sample list \<Rightarrow> nat \<Rightarrow> sample list \<times> nat" where
  "encode_channels fullBinary i channel data binaryIndex =
     (if channel < 3 \<and> binaryIndex < length fullBinary then
        (let pixelIndex = i + channel in
         if pixelIndex < length data then
           encode_channels fullBinary i (channel + 1)
             (data[pixelIndex := (data ! pixelIndex AND 0xFE) OR (if fullBinary ! binaryIndex then 1 else 0)])
             (binaryIndex + 1)
         else encode_channels fullBinary i (channel + 1) data binaryIndex)
      else (data, binaryIndex))"
  by pat_completeness auto
termination
  by (relation "measure (\<lambda>(fullBinary, i, channel, data, binaryIndex). 3 - channel)") auto

declare encode_channels.simps [simp del]

lemma length_encode_channels:
  "length (fst (encode_channels fullBinary i channel data binaryIndex)) = length data"
  by (induction fullBinary i channel data binaryIndex rule: encode_channels.induct)
     (subst encode_channels.simps, simp add: Let_def)

lemma length_encode_channelsD:
  "encode_channels fullBinary i channel data binaryIndex = (data', binaryIndex')
     \<Longrightarrow> length data' = length data"
  using length_encode_channels [of fullBinary i channel data binaryIndex] by simp

text \<open>The outer loop over the pixels, four samples at a time.\<close>

function encode_pixels ::
  "bool \<Rightarrow> nat \<Rightarrow> binary \<Rightarrow> nat \<Rightarrow> sample list \<Rightarrow> nat \<Rightarrow> progress list
     \<Rightarrow> sample list \<times> nat \<times> progress list" where
  "encode_pixels onProgress totalPixels fullBinary i data binaryIndex log =
     (if i < length data \<and> binaryIndex < length fullBinary then
        (case encode_channels fullBinary i 0 data binaryIndex of
           (data', binaryIndex') \<Rightarrow>
             encode_pixels onProgress totalPixels fullBinary (i + 4) data' binaryIndex'
               (if onProgress \<and> i mod 12000 = 0
                then log @ [EncodeProgress i totalPixels] else log))
      else (data, binaryIndex, log))"
  by pat_completeness auto
termination
proof (relation "measure (\<lambda>(onProgress, totalPixels, fullBinary, i, data, binaryIndex, log).
    length data - i)", goal_cases)
  case 1
  show ?case by simp
next
  case 2
  then show ?case
    by (auto simp add: length_encode_channelsD [OF sym])
qed

declare encode_pixels.simps [simp del]

text \<open>
  \<^verbatim>\<open>encodeMessage\<close> from the point where the canvas holds the image: \<open>width\<close> and
  \<open>height\<close> are the canvas dimensions and \<open>data\<close> is \<^verbatim>\<open>imageData.data\<close>. The result is
  the pixel buffer as the call leaves it, and either the error thrown or the progress
  calls made on the way to the PNG blob of that buffer.
\<close>

definition encodeMessage ::
  "nat \<Rightarrow> nat \<Rightarrow> sample list \<Rightarrow> jsstring \<Rightarrow> jsstring option \<Rightarrow> bool
     \<Rightarrow> sample list \<times> (error + progress list)" where
  "encodeMessage width height data message password onProgress =
     (let fullMessage = applyPassword password message;
          delimiter = [0, 0, 0, 0];
          messageWithDelimiter = fullMessage @ delimiter;
          messageBinary = stringToBinary messageWithDelimiter;
          capacity = calculateCapacity (int width) (int height)
      in if int (length messageWithDelimiter) > capacity then (data, Inl (CapacityExceeded capacity))
         else
           (let lengthBinary = padStart 32 (toString2 (length message));
                fullBinary = lengthBinary @ messageBinary;
                totalPixels = width * height
            in case encode_pixels onProgress totalPixels fullBinary 0 data 0 [] of
                 (data', binaryIndex, log) \<Rightarrow>
                   (data', Inr (if onProgress then log @ [Complete] else log))))"

section \<open>Decoder\<close>

text \<open>A comparison with a number that may be \<^verbatim>\<open>NaN\<close> is false when it is.\<close>

definition js_less :: "nat \<Rightarrow> nat option \<Rightarrow> bool" where
  "js_less a b = (case b of None \<Rightarrow> False | Some n \<Rightarrow> a < n)"

text \<open>First pair of loops: the 32 bits of the length.\<close>

function header_channels :: "sample list \<Rightarrow> nat \<Rightarrow> nat \<Rightarrow> binary \<Rightarrow> nat \<Rightarrow> binary \<times> nat" where
  "header_channels data i channel binaryData binaryIndex =
     (if channel < 3 \<and> binaryIndex < 32 then
        (let pixelIndex = i + channel in
         if pixelIndex < length data then
           header_channels data i (channel + 1)
             (binaryData @ [data ! pixelIndex AND 1 = 1]) (binaryIndex + 1)
         else header_channels data i (channel + 1) binaryData binaryIndex)
      else (binaryData, binaryIndex))"
  by pat_completeness auto
termination
  by (relation "measure (\<lambda>(data, i, channel, binaryData, binaryIndex). 3 - channel)") auto

declare header_channels.simps [simp del]

function header_pixels :: "sample list \<Rightarrow> nat \<Rightarrow> binary \<Rightarrow> nat \<Rightarrow> binary \<times> nat" where
  "header_pixels data i binaryData binaryIndex =
     (if i < length data \<and> binaryIndex < 32 then
        (case header_channels data i 0 binaryData binaryIndex of
           (binaryData', binaryIndex') \<Rightarrow> header_pixels data (i + 4) binaryData' binaryIndex')
      else (binaryData, binaryIndex))"
  by pat_completeness auto
termination
  by (relation "measure (\<lambda>(data, i, binaryData, binaryIndex). length data - i)") auto

declare header_pixels.simps [simp del]

text \<open>Second pair of loops: the payload, \<open>binaryIndex\<close> being 32 throughout.\<close>

function payload_channels ::
  "sample list \<Rightarrow> nat option \<Rightarrow> nat \<Rightarrow> nat \<Rightarrow> nat \<Rightarrow> binary \<Rightarrow> nat \<Rightarrow> binary \<times> nat" where
  "payload_channels data messageBits binaryIndex i channel binaryData extractedBits =
     (if channel < 3 \<and> js_less extractedBits messageBits then
        (let pixelIndex = i + channel;
             globalBitIndex = (pixelIndex div 4) * 3 + channel
         in if globalBitIndex \<ge> binaryIndex \<and> pixelIndex < length data then
              payload_channels data messageBits binaryIndex i (channel + 1)
                (binaryData @ [data ! pixelIndex AND 1 = 1]) (extractedBits + 1)
            else payload_channels data messageBits binaryIndex i (channel + 1)
                binaryData extractedBits)
      else (binaryData, extractedBits))"
  by pat_completeness auto
termination
  by (relation "measure (\<lambda>(data, messageBits, binaryIndex, i, channel, binaryData, extractedBits).
        3 - channel)") auto

declare payload_channels.simps [simp del]

function payload_pixels ::
  "bool \<Rightarrow> sample list \<Rightarrow> nat option \<Rightarrow> nat \<Rightarrow> nat \<Rightarrow> binary \<Rightarrow> nat \<Rightarrow> progress list
     \<Rightarrow> binary \<times> nat \<times> progress list" where
  "payload_pixels onProgress data messageBits binaryIndex i binaryData extractedBits log =
     (if i < length data \<and> js_less extractedBits messageBits then
        (case payload_channels data messageBits binaryIndex i 0 binaryData extractedBits of
           (binaryData', extractedBits') \<Rightarrow>
             payload_pixels onProgress data messageBits binaryIndex (i + 4) binaryData'
               extractedBits'
               (if onProgress \<and> i mod 12000 = 0
                then log @ [DecodeProgress extractedBits' messageBits] else log))
      else (binaryData, extractedBits, log))"
  by pat_completeness auto
termination
  by (relation "measure (\<lambda>(onProgress, data, messageBits, binaryIndex, i, binaryData,
        extractedBits, log). length data - i)") auto

declare payload_pixels.simps [simp del]

text \<open>
  \<^verbatim>\<open>decodeMessage\<close> from the point where \<open>data\<close> is \<^verbatim>\<open>imageData.data\<close>. \<open>None\<close> is
  the \<^verbatim>\<open>null\<close> result. The \<^verbatim>\<open>catch\<close> around the unmasking has no branch here: nothing
  in the mapped expression can throw.
\<close>

definition decodeMessage ::
  "sample list \<Rightarrow> jsstring option \<Rightarrow> bool \<Rightarrow> jsstring option \<times> progress list" where
  "decodeMessage data password onProgress =
     (let messageLength = parseInt2 (fst (header_pixels data 0 [] 0))
      in if (case messageLength of None \<Rightarrow> False | Some n \<Rightarrow> n \<le> 0 \<or> n > 1000000)
         then (None, [])
         else
           (let binaryIndex = 32;
                messageBits = map_option (\<lambda>n. n * 8) messageLength
            in case payload_pixels onProgress data messageBits binaryIndex
                      ((binaryIndex div 3) * 4) [] 0 [] of
                 (binaryData, extractedBits, log) \<Rightarrow>
                   (let message = applyPassword password (binaryToString binaryData)
                    in (if length message > 0 then Some message else None,
                        if onProgress then log @ [Complete] else log))))"

section \<open>The bit stream of a pixel buffer\<close>

text \<open>
  The samples that carry a bit: red, green and blue of every pixel in buffer order, the
  alpha sample (every fourth) left out. A buffer that ends inside a pixel contributes the
  samples it has.
\<close>

fun rgb_samples :: "'a list \<Rightarrow> 'a list" where
  "rgb_samples (r # g # b # a # rest) = r # g # b # rgb_samples rest"
| "rgb_samples xs = xs"

text \<open>The stream of least-significant bits of these samples.\<close>

definition rgb_stream :: "sample list \<Rightarrow> binary" where
  "rgb_stream data = map (\<lambda>x. x AND 1 = 1) (rgb_samples data)"

text \<open>The frame that the encoder writes: the length in 32 binary digits, then the message
  (masked when a password is given) and the four-character delimiter, eight digits each.\<close>

definition frame :: "jsstring \<Rightarrow> jsstring option \<Rightarrow> binary" where
  "frame message password =
     padStart 32 (toString2 (length message)) @
     stringToBinary (applyPassword password message @ [0, 0, 0, 0])"

text \<open>
  What the decoder is to read, said on the bit stream: the declared length is the number
  that the first 32 bits of the stream denote (\<open>None\<close> when the stream is empty), and the
  decoded string is made of the \<open>8 * length\<close> bits that follow them, unmasked when a
  password is given.
\<close>

definition declaredLength :: "sample list \<Rightarrow> nat option" where
  "declaredLength data = parseInt2 (take 32 (rgb_stream data))"

definition decodedString :: "sample list \<Rightarrow> jsstring option \<Rightarrow> jsstring" where
  "decodedString data password =
     applyPassword password
       (binaryToString
          (case declaredLength data of
             None \<Rightarrow> []
           | Some n \<Rightarrow> take (n * 8) (drop 32 (rgb_stream data))))"

text \<open>Printable ASCII: the code units 32 to 126.\<close>

definition printableASCII :: "jsstring \<Rightarrow> bool" where
  "printableASCII m = list_all (\<lambda>c. 32 \<le> unat c \<and> unat c \<le> 126) m"

text \<open>The number a string of binary digits denotes, most significant digit first.\<close>

definition bits_value :: "binary \<Rightarrow> nat" where
  "bits_value s = foldl (\<lambda>acc b. 2 * acc + (if b then 1 else 0)) 0 s"

section \<open>Binary digits\<close>

lemma bits_value_snoc: "bits_value (xs @ [b]) = 2 * bits_value xs + (if b then 1 else 0)"
  by (simp add: bits_value_def)

lemma bits_value_toString2: "bits_value (toString2 n) = n"
proof (induction n rule: toString2.induct)
  case (1 n)
  show ?case
  proof (cases "n < 2")
    case True
    then have "n = 0 \<or> n = 1" by auto
    then show ?thesis
      by (auto simp add: toString2.simps [of n] bits_value_def)
  next
    case False
    with 1 have "bits_value (toString2 (n div 2)) = n div 2" by simp
    with False show ?thesis
      by (simp add: toString2.simps [of n] bits_value_snoc) presburger
  qed
qed

lemma foldl_zeros:
  "foldl (\<lambda>acc b. 2 * acc + (if b then 1 else 0)) (0::nat) (replicate k False) = 0"
  by (induction k) simp_all

lemma bits_value_pad: "bits_value (replicate k False @ xs) = bits_value xs"
  by (simp add: bits_value_def foldl_zeros)

lemma toString2_not_Nil: "toString2 n \<noteq> []"
  by (subst toString2.simps) simp

lemma length_toString2: "0 < k \<Longrightarrow> n < 2 ^ k \<Longrightarrow> length (toString2 n) \<le> k"
proof (induction n arbitrary: k rule: toString2.induct)
  case (1 n)
  show ?case
  proof (cases "n < 2")
    case True
    with 1(2) show ?thesis by (simp add: toString2.simps [of n])
  next
    case False
    with 1(3) have k: "1 < k"
      by (metis One_nat_def Suc_lessI \<open>0 < k\<close> power_one_right)
    then obtain j where j: "k = Suc j" "0 < j" by (cases k) auto
    with 1(3) have "n div 2 < 2 ^ j" by auto
    with 1(1) False j have "length (toString2 (n div 2)) \<le> j" by simp
    with False j show ?thesis by (simp add: toString2.simps [of n])
  qed
qed

lemma parseInt2_eq: "parseInt2 s = (if s = [] then None else Some (bits_value s))"
  by (simp add: parseInt2_def bits_value_def)

lemma parseInt2_padStart: "parseInt2 (padStart k (toString2 n)) = Some n"
  by (simp add: parseInt2_eq padStart_def bits_value_pad bits_value_toString2 toString2_not_Nil)

lemma length_padStart: "0 < k \<Longrightarrow> n < 2 ^ k \<Longrightarrow> length (padStart k (toString2 n)) = k"
  using length_toString2 [of k n] by (simp add: padStart_def)

lemma match_1_8_Nil: "match_1_8 [] = []"
  by (simp add: match_1_8.simps)

lemma match_1_8_append: "length xs = 8 \<Longrightarrow> match_1_8 (xs @ ys) = xs # match_1_8 ys"
  by (subst match_1_8.simps) auto

lemma fromCharCode_unat: "fromCharCode (Some (unat (c::jschar))) = c"
  by (simp add: fromCharCode_def)

lemma stringToBinary_Cons:
  "stringToBinary (c # s) = padStart 8 (toString2 (unat c)) @ stringToBinary s"
  by (simp add: stringToBinary_def)

lemma stringToBinary_append: "stringToBinary (a @ b) = stringToBinary a @ stringToBinary b"
  by (simp add: stringToBinary_def)

lemma length_stringToBinary:
  "list_all (\<lambda>c. unat c < 256) s \<Longrightarrow> length (stringToBinary s) = 8 * length s"
  by (induction s) (simp_all add: stringToBinary_def length_padStart)

lemma binaryToString_stringToBinary:
  "list_all (\<lambda>c. unat c < 256) s \<Longrightarrow> binaryToString (stringToBinary s) = s"
proof (induction s)
  case Nil
  show ?case by (simp add: binaryToString_def stringToBinary_def match_1_8_Nil)
next
  case (Cons c s)
  then have len: "length (padStart 8 (toString2 (unat c))) = 8"
    by (simp add: length_padStart)
  from Cons have "binaryToString (stringToBinary s) = s" by simp
  then show ?case
    by (simp add: stringToBinary_Cons binaryToString_def match_1_8_append [OF len]
        parseInt2_padStart fromCharCode_unat)
qed

section \<open>Samples and the mask\<close>

lemma write_lsb: "(((x::sample) AND 0xFE) OR (if b then 1 else 0)) AND 1 = 1 \<longleftrightarrow> b"
  by (cases b) (simp_all add: bit.conj_disj_distrib2 and.assoc)

lemma write_upper:
  "(((x::sample) AND 0xFE) OR (if b then 1 else 0)) AND 0xFE = x AND 0xFE"
  by (cases b) (simp_all add: bit.conj_disj_distrib2 and.assoc)

lemma fromCharCode_xor:
  "fromCharCode (Some (unat (c::jschar) XOR k)) = c XOR of_nat k"
  by (simp add: fromCharCode_def of_nat_xor_eq)

lemma xorWithKey_nth:
  "i < length m \<Longrightarrow> xorWithKey key m ! i = m ! i XOR of_nat ((key + i) mod 256)"
  by (simp add: xorWithKey_def fromCharCode_xor nth_enumerate_eq)

lemma length_xorWithKey: "length (xorWithKey key m) = length m"
  by (simp add: xorWithKey_def)

lemma xorWithKey_involution: "xorWithKey key (xorWithKey key m) = m"
  by (rule nth_equalityI) (simp_all add: length_xorWithKey xorWithKey_nth xor.assoc)

lemma xor_byte: "m < 256 \<Longrightarrow> k < 256 \<Longrightarrow> (m::nat) XOR k < 256"
proof -
  assume a: "m < 256" "k < 256"
  have "take_bit 8 (m XOR k) = take_bit 8 m XOR take_bit 8 k"
    by (rule take_bit_xor)
  also have "\<dots> = m XOR k"
    using a by (simp add: take_bit_nat_eq_self)
  finally have "m XOR k < 2 ^ 8"
    by (simp only: take_bit_nat_eq_self_iff)
  then show ?thesis by simp
qed

lemma unat_fromCharCode_xor:
  assumes "unat (c::jschar) < 256"
  shows "unat (fromCharCode (Some (unat c XOR (n mod 256)))) < 256"
proof -
  have "unat c XOR (n mod 256) < 256"
    using assms by (intro xor_byte) simp_all
  then show ?thesis
    by (simp add: fromCharCode_def unat_of_nat)
qed

lemma xorWithKey_bytes:
  "list_all (\<lambda>c. unat c < 256) m \<Longrightarrow> list_all (\<lambda>c. unat c < 256) (xorWithKey key m)"
  by (auto simp add: xorWithKey_def list_all_iff in_set_enumerate_eq intro!: unat_fromCharCode_xor)

section \<open>The stream by position\<close>

lemma rgb_samples_unfold: "rgb_samples xs = take 3 xs @ rgb_samples (drop 4 xs)"
  by (cases xs rule: rgb_samples.cases) simp_all

lemma rgb_samples_short: "length xs \<le> 3 \<Longrightarrow> rgb_samples xs = xs"
  by (cases xs rule: rgb_samples.cases) simp_all

lemma drop3_rgb_samples: "drop 3 (rgb_samples xs) = rgb_samples (drop 4 xs)"
  by (cases xs rule: rgb_samples.cases) simp_all

lemma drop_rgb_samples: "drop (3 * p) (rgb_samples xs) = rgb_samples (drop (4 * p) xs)"
proof (induction p arbitrary: xs)
  case 0
  show ?case by simp
next
  case (Suc p)
  have three: "3 * Suc p = 3 * p + 3" and four: "4 * Suc p = 4 * p + 4"
    by simp_all
  have "drop (3 * Suc p) (rgb_samples xs) = drop (3 * p) (drop 3 (rgb_samples xs))"
    by (simp only: three drop_drop)
  also have "\<dots> = drop (3 * p) (rgb_samples (drop 4 xs))"
    by (simp only: drop3_rgb_samples)
  also have "\<dots> = rgb_samples (drop (4 * p) (drop 4 xs))"
    by (rule Suc.IH)
  also have "\<dots> = rgb_samples (drop (4 * Suc p) xs)"
    by (simp only: four drop_drop)
  finally show ?case .
qed

lemma length_rgb_samples:
  "length (rgb_samples xs) = 3 * (length xs div 4) + min 3 (length xs mod 4)"
  by (induction xs rule: rgb_samples.induct) (simp_all add: div_add_self1)

lemma nth_rgb_samples:
  "k < length (rgb_samples xs) \<Longrightarrow> rgb_samples xs ! k = xs ! (4 * (k div 3) + k mod 3)"
proof (induction xs arbitrary: k rule: rgb_samples.induct)
  case (1 r g b a rest)
  show ?case
  proof (cases "k < 3")
    case True
    then have "k = 0 \<or> k = 1 \<or> k = 2" by auto
    then show ?thesis by auto
  next
    case False
    then obtain j where j: "k = j + 3" by (metis add.commute le_Suc_ex not_less)
    with 1(2) have "j < length (rgb_samples rest)" by simp
    then have *: "rgb_samples rest ! j = rest ! (4 * (j div 3) + j mod 3)" by (rule 1(1))
    have "(j + 3) div 3 = Suc (j div 3)" "(j + 3) mod 3 = j mod 3" by simp_all
    with j * show ?thesis by simp
  qed
qed simp_all

section \<open>The loops of the decoder\<close>

lemma take_drop_step:
  assumes "c < k" "j < length xs"
  shows "take (k - c) (drop j xs) = xs ! j # take (k - Suc c) (drop (Suc j) xs)"
proof -
  from assms(1) have "k - c = Suc (k - Suc c)" by simp
  moreover from assms(2) have "drop j xs = xs ! j # drop (Suc j) xs"
    by (simp add: Cons_nth_drop_Suc)
  ultimately show ?thesis by simp
qed

lemma take_Cons_pos: "0 < n \<Longrightarrow> take n (x # xs) = x # take (n - 1) xs"
  by (cases n) simp_all

lemma header_channels_eq:
  "channel \<le> 3 \<Longrightarrow>
   header_channels data i channel bd bi =
     (bd @ take (32 - bi) (map (\<lambda>x. x AND 1 = 1) (take (3 - channel) (drop (i + channel) data))),
      bi + length (take (32 - bi) (take (3 - channel) (drop (i + channel) data))))"
proof (induction data i channel bd bi rule: header_channels.induct)
  case (1 data i channel bd bi)
  show ?case
  proof (cases "channel < 3 \<and> bi < 32")
    case False
    with 1(3) show ?thesis
      by (subst header_channels.simps) auto
  next
    case run: True
    show ?thesis
    proof (cases "i + channel < length data")
      case True
      have A: "take (3 - channel) (drop (i + channel) data) =
          data ! (i + channel) # take (3 - Suc channel) (drop (Suc (i + channel)) data)"
        using run True by (simp add: take_drop_step)
      have "header_channels data i channel bd bi =
          header_channels data i (channel + 1) (bd @ [data ! (i + channel) AND 1 = 1]) (bi + 1)"
        using run True by (subst header_channels.simps) simp
      also note 1(1) [OF run refl True]
      finally show ?thesis
        using run by (simp add: A take_Cons_pos)
    next
      case False
      have "header_channels data i channel bd bi = header_channels data i (channel + 1) bd bi"
        using run False by (subst header_channels.simps) simp
      also note 1(2) [OF run refl False]
      finally show ?thesis
        using run False by simp
    qed
  qed
qed

lemma header_channels_0:
  "header_channels data i 0 bd bi =
     (bd @ take (32 - bi) (map (\<lambda>x. x AND 1 = 1) (take 3 (drop i data))),
      bi + length (take (32 - bi) (take 3 (drop i data))))"
  using header_channels_eq [of 0 data i bd bi] by simp

lemma rgb_stream_unfold:
  "rgb_stream xs = map (\<lambda>x. x AND 1 = 1) (take 3 xs) @ rgb_stream (drop 4 xs)"
  unfolding rgb_stream_def by (subst rgb_samples_unfold) simp

lemma header_pixels_eq:
  "fst (header_pixels data i bd bi) = bd @ take (32 - bi) (rgb_stream (drop i data))"
proof (induction data i bd bi rule: header_pixels.induct)
  case (1 data i bd bi)
  show ?case
  proof (cases "i < length data \<and> bi < 32")
    case False
    then show ?thesis
      by (subst header_pixels.simps) (auto simp add: rgb_stream_def)
  next
    case True
    let ?A = "take 3 (drop i data)"
    let ?bd = "bd @ take (32 - bi) (map (\<lambda>x. x AND 1 = 1) ?A)"
    let ?bi = "bi + length (take (32 - bi) ?A)"
    have "fst (header_pixels data i bd bi) = fst (header_pixels data (i + 4) ?bd ?bi)"
      using True by (subst header_pixels.simps) (simp add: header_channels_0)
    also have "\<dots> = ?bd @ take (32 - ?bi) (rgb_stream (drop (i + 4) data))"
      by (rule 1 [OF True]) (simp add: header_channels_0)
    also have "\<dots> = bd @ take (32 - bi) (rgb_stream (drop i data))"
      by (subst (2) rgb_stream_unfold) (auto simp add: add.commute min_def)
    finally show ?thesis .
  qed
qed


lemma payload_channels_eq:
  "channel \<le> 3 \<Longrightarrow> 44 \<le> i \<Longrightarrow>
   payload_channels data (Some mb) 32 i channel bd eb =
     (bd @ take (mb - eb) (map (\<lambda>x. x AND 1 = 1) (take (3 - channel) (drop (i + channel) data))),
      eb + length (take (mb - eb) (take (3 - channel) (drop (i + channel) data))))"
proof (induction data "Some mb" "32::nat" i channel bd eb rule: payload_channels.induct)
  case (1 data i channel bd eb)
  have "44 div 4 \<le> (i + channel) div 4"
    using \<open>44 \<le> i\<close> by (intro div_le_mono) simp
  then have g: "32 \<le> (i + channel) div 4 * 3 + channel"
    by simp
  show ?case
  proof (cases "channel < 3 \<and> eb < mb")
    case False
    with 1(3) show ?thesis
      by (subst payload_channels.simps) (auto simp add: js_less_def)
  next
    case run: True
    then have run': "channel < 3 \<and> js_less eb (Some mb)"
      by (simp add: js_less_def)
    show ?thesis
    proof (cases "i + channel < length data")
      case True
      with g have c: "32 \<le> (i + channel) div 4 * 3 + channel \<and> i + channel < length data"
        by simp
      have A: "take (3 - channel) (drop (i + channel) data) =
          data ! (i + channel) # take (3 - Suc channel) (drop (Suc (i + channel)) data)"
        using run True by (simp add: take_drop_step)
      have "payload_channels data (Some mb) 32 i channel bd eb =
          payload_channels data (Some mb) 32 i (channel + 1)
            (bd @ [data ! (i + channel) AND 1 = 1]) (eb + 1)"
        using run' c by (subst payload_channels.simps) simp
      also have "\<dots> =
         ((bd @ [data ! (i + channel) AND 1 = 1]) @
            take (mb - (eb + 1)) (map (\<lambda>x. x AND 1 = 1)
               (take (3 - (channel + 1)) (drop (i + (channel + 1)) data))),
          eb + 1 + length (take (mb - (eb + 1))
               (take (3 - (channel + 1)) (drop (i + (channel + 1)) data))))"
        using run by (intro 1(1) [OF run' refl refl c]) (simp_all add: \<open>44 \<le> i\<close>)
      finally show ?thesis
        using run by (simp add: A take_Cons_pos)
    next
      case False
      then have c: "\<not> (32 \<le> (i + channel) div 4 * 3 + channel \<and> i + channel < length data)"
        by simp
      have "payload_channels data (Some mb) 32 i channel bd eb =
          payload_channels data (Some mb) 32 i (channel + 1) bd eb"
        using run' False by (subst payload_channels.simps) (simp add: Let_def)
      also have "\<dots> =
         (bd @ take (mb - eb) (map (\<lambda>x. x AND 1 = 1)
               (take (3 - (channel + 1)) (drop (i + (channel + 1)) data))),
          eb + length (take (mb - eb)
               (take (3 - (channel + 1)) (drop (i + (channel + 1)) data))))"
        using run by (intro 1(2) [OF run' refl refl c]) (simp_all add: \<open>44 \<le> i\<close>)
      finally show ?thesis
        using run False by simp
    qed
  qed
qed


lemma payload_channels_0:
  "44 \<le> i \<Longrightarrow>
   payload_channels data (Some mb) 32 i 0 bd eb =
     (bd @ take (mb - eb) (map (\<lambda>x. x AND 1 = 1) (take 3 (drop i data))),
      eb + length (take (mb - eb) (take 3 (drop i data))))"
  using payload_channels_eq [of 0 i data mb bd eb] by simp

lemma payload_pixels_eq:
  "44 \<le> i \<Longrightarrow>
   fst (payload_pixels onProgress data (Some mb) 32 i bd eb log) =
     bd @ take (mb - eb) (rgb_stream (drop i data))"
proof (induction onProgress data "Some mb" "32::nat" i bd eb log rule: payload_pixels.induct)
  case (1 onProgress data i bd eb log)
  show ?case
  proof (cases "i < length data \<and> eb < mb")
    case False
    then show ?thesis
      by (subst payload_pixels.simps) (auto simp add: rgb_stream_def js_less_def)
  next
    case True
    then have run: "i < length data \<and> js_less eb (Some mb)"
      by (simp add: js_less_def)
    let ?A = "take 3 (drop i data)"
    let ?bd = "bd @ take (mb - eb) (map (\<lambda>x. x AND 1 = 1) ?A)"
    let ?eb = "eb + length (take (mb - eb) ?A)"
    let ?log = "if onProgress \<and> i mod 12000 = 0
                then log @ [DecodeProgress ?eb (Some mb)] else log"
    have "fst (payload_pixels onProgress data (Some mb) 32 i bd eb log) =
        fst (payload_pixels onProgress data (Some mb) 32 (i + 4) ?bd ?eb ?log)"
      using run by (subst payload_pixels.simps) (simp add: payload_channels_0 [OF 1(2)])
    also have "\<dots> = ?bd @ take (mb - ?eb) (rgb_stream (drop (i + 4) data))"
      using 1(2) by (intro 1(1) [OF run payload_channels_0 [symmetric]]) simp_all
    also have "\<dots> = bd @ take (mb - eb) (rgb_stream (drop i data))"
      by (subst (2) rgb_stream_unfold) (auto simp add: add.commute min_def)
    finally show ?thesis .
  qed
qed

lemma payload_channels_first:
  "payload_channels data (Some mb) 32 40 0 bd eb =
     (bd @ take (mb - eb) (map (\<lambda>x. x AND 1 = 1) (take 1 (drop 42 data))),
      eb + length (take (mb - eb) (take 1 (drop 42 data))))"
proof -
  let ?r = "(bd @ take (mb - eb) (map (\<lambda>x. x AND 1 = 1) (take 1 (drop 42 data))),
      eb + length (take (mb - eb) (take 1 (drop 42 data))))"
  have c3: "payload_channels data (Some mb) 32 40 (Suc (Suc (Suc 0))) bd' eb' = (bd', eb')"
    for bd' eb'
    by (subst payload_channels.simps) simp
  have c2: "payload_channels data (Some mb) 32 40 (Suc (Suc 0)) bd eb = ?r"
  proof (cases "eb < mb")
    case True
    then show ?thesis
      by (subst payload_channels.simps)
        (simp add: c3 js_less_def Let_def take_Cons_pos Cons_nth_drop_Suc [symmetric])
  next
    case False
    then show ?thesis
      by (subst payload_channels.simps) (simp add: js_less_def)
  qed
  have c1: "payload_channels data (Some mb) 32 40 (Suc 0) bd eb = ?r"
  proof (cases "eb < mb")
    case True
    then show ?thesis
      by (subst payload_channels.simps) (simp add: c2 js_less_def Let_def)
  next
    case False
    then show ?thesis
      by (subst payload_channels.simps) (simp add: js_less_def)
  qed
  show ?thesis
  proof (cases "eb < mb")
    case True
    then show ?thesis
      by (subst payload_channels.simps) (simp add: c1 js_less_def Let_def)
  next
    case False
    then show ?thesis
      by (subst payload_channels.simps) (simp add: js_less_def)
  qed
qed

lemma length_rgb_stream: "length (rgb_stream data) = length (rgb_samples data)"
  by (simp add: rgb_stream_def)

lemma drop_rgb_stream: "drop (3 * p) (rgb_stream xs) = rgb_stream (drop (4 * p) xs)"
  by (simp add: rgb_stream_def drop_map drop_rgb_samples)

lemma drop32_rgb_stream:
  "drop 32 (rgb_stream data) =
     map (\<lambda>x. x AND 1 = 1) (take 1 (drop 42 data)) @ rgb_stream (drop 44 data)"
proof -
  have "drop 32 (rgb_stream data) = drop 2 (drop (3 * 10) (rgb_stream data))"
    by simp
  also have "\<dots> = drop 2 (rgb_stream (drop 40 data))"
    by (simp only: drop_rgb_stream) simp
  also have "\<dots> = drop 2 (map (\<lambda>x. x AND 1 = 1) (take 3 (drop 40 data)) @
      rgb_stream (drop 4 (drop 40 data)))"
    by (subst rgb_stream_unfold) simp
  also have "\<dots> = map (\<lambda>x. x AND 1 = 1) (take 1 (drop 42 data)) @ rgb_stream (drop 44 data)"
    by (cases "42 \<le> length data") (simp_all add: drop_map drop_take rgb_stream_def)
  finally show ?thesis .
qed

lemma payload_pixels_32:
  "fst (payload_pixels onProgress data (Some mb) 32 40 [] 0 []) =
     take mb (drop 32 (rgb_stream data))"
proof (cases "40 < length data \<and> 0 < mb")
  case True
  then have run: "40 < length data \<and> js_less 0 (Some mb)"
    by (simp add: js_less_def)
  show ?thesis
    using run
    by (subst payload_pixels.simps)
      (auto simp add: payload_channels_first payload_pixels_eq drop32_rgb_stream min_def)
next
  case False
  have "drop 32 (rgb_stream data) = []" if "length data \<le> 40"
    using that by (simp only: drop32_rgb_stream) (simp add: rgb_stream_def)
  with False show ?thesis
    by (subst payload_pixels.simps) (auto simp add: js_less_def)
qed

lemma payload_pixels_NaN:
  "payload_pixels onProgress data None binaryIndex i bd eb log = (bd, eb, log)"
  by (subst payload_pixels.simps) (simp add: js_less_def)

section \<open>The loops of the encoder\<close>

lemma encode_channels_nth:
  "channel \<le> 3 \<Longrightarrow> j < length data \<Longrightarrow>
   fst (encode_channels bits i channel data bi) ! j =
     (if i + channel \<le> j \<and> j < i + 3 \<and> bi + (j - (i + channel)) < length bits
      then (data ! j AND 0xFE) OR (if bits ! (bi + (j - (i + channel))) then 1 else 0)
      else data ! j)"
proof (induction bits i channel data bi rule: encode_channels.induct)
  case (1 bits i channel data bi)
  show ?case
  proof (cases "channel < 3 \<and> bi < length bits")
    case False
    with 1(3) show ?thesis
      by (subst encode_channels.simps) auto
  next
    case run: True
    show ?thesis
    proof (cases "i + channel < length data")
      case True
      let ?data = "data[i + channel := (data ! (i + channel) AND 0xFE) OR (if bits ! bi then 1 else 0)]"
      have "fst (encode_channels bits i channel data bi) ! j =
          fst (encode_channels bits i (channel + 1) ?data (bi + 1)) ! j"
        using run True by (subst encode_channels.simps) (simp add: Let_def)
      also have "\<dots> =
        (if i + (channel + 1) \<le> j \<and> j < i + 3 \<and> bi + 1 + (j - (i + (channel + 1))) < length bits
         then (?data ! j AND 0xFE) OR (if bits ! (bi + 1 + (j - (i + (channel + 1)))) then 1 else 0)
         else ?data ! j)"
        using run 1(4) by (intro 1(1) [OF run refl True]) simp_all
      also have "\<dots> =
        (if i + channel \<le> j \<and> j < i + 3 \<and> bi + (j - (i + channel)) < length bits
         then (data ! j AND 0xFE) OR (if bits ! (bi + (j - (i + channel))) then 1 else 0)
         else data ! j)"
      proof (cases "j = i + channel")
        case True
        with run 1(4) show ?thesis by simp
      next
        case False
        then have "bi + 1 + (j - (i + (channel + 1))) = bi + (j - (i + channel))"
          if "i + (channel + 1) \<le> j"
          using that by simp
        with False show ?thesis by auto
      qed
      finally show ?thesis .
    next
      case False
      have "fst (encode_channels bits i channel data bi) ! j =
          fst (encode_channels bits i (channel + 1) data bi) ! j"
        using run False by (subst encode_channels.simps) simp
      also note 1(2) [OF run refl False _ 1(4)]
      finally show ?thesis
        using run False 1(4) by auto
    qed
  qed
qed

lemma encode_channels_snd:
  "channel \<le> 3 \<Longrightarrow> i + 2 < length data \<Longrightarrow> bi + (3 - channel) \<le> length bits \<Longrightarrow>
   snd (encode_channels bits i channel data bi) = bi + (3 - channel)"
proof (induction bits i channel data bi rule: encode_channels.induct)
  case (1 bits i channel data bi)
  show ?case
  proof (cases "channel < 3")
    case False
    with 1(3) show ?thesis
      by (subst encode_channels.simps) auto
  next
    case True
    with 1(5) have run: "channel < 3 \<and> bi < length bits"
      by simp
    from True 1(4) have inside: "i + channel < length data"
      by simp
    have "snd (encode_channels bits i channel data bi) =
        snd (encode_channels bits i (channel + 1)
          (data[i + channel := (data ! (i + channel) AND 0xFE) OR (if bits ! bi then 1 else 0)])
          (bi + 1))"
      using run inside by (subst encode_channels.simps) (simp add: Let_def)
    also have "\<dots> = bi + 1 + (3 - (channel + 1))"
      using True 1(4) 1(5) by (intro 1(1) [OF run refl inside]) simp_all
    finally show ?thesis
      using True by simp
  qed
qed


lemma encode_pixels_step:
  "i < length data \<and> binaryIndex < length fullBinary \<Longrightarrow>
   encode_pixels onProgress totalPixels fullBinary i data binaryIndex log =
     encode_pixels onProgress totalPixels fullBinary (i + 4)
       (fst (encode_channels fullBinary i 0 data binaryIndex))
       (snd (encode_channels fullBinary i 0 data binaryIndex))
       (if onProgress \<and> i mod 12000 = 0 then log @ [EncodeProgress i totalPixels] else log)"
  by (subst encode_pixels.simps) (simp add: case_prod_beta)

lemma encode_pixels_stop:
  "\<not> (i < length data \<and> binaryIndex < length fullBinary) \<Longrightarrow>
   encode_pixels onProgress totalPixels fullBinary i data binaryIndex log =
     (data, binaryIndex, log)"
  by (subst encode_pixels.simps) (rule if_not_P)

lemma length_encode_pixels:
  "length (fst (encode_pixels onProgress totalPixels bits i data bi log)) = length data"
proof (induction onProgress totalPixels bits i data bi log rule: encode_pixels.induct)
  case (1 onProgress totalPixels bits i data bi log)
  show ?case
  proof (cases "i < length data \<and> bi < length bits")
    case False
    then show ?thesis by (simp add: encode_pixels_stop)
  next
    case True
    then show ?thesis
      using 1 [OF True prod.collapse]
      by (simp add: encode_pixels_step length_encode_channels)
  qed
qed

lemma encode_pixels_below:
  "j < i \<Longrightarrow> j < length data \<Longrightarrow>
   fst (encode_pixels onProgress totalPixels bits i data bi log) ! j = data ! j"
proof (induction onProgress totalPixels bits i data bi log rule: encode_pixels.induct)
  case (1 onProgress totalPixels bits i data bi log)
  show ?case
  proof (cases "i < length data \<and> bi < length bits")
    case False
    then show ?thesis by (simp add: encode_pixels_stop)
  next
    case True
    then show ?thesis
      using 1(1) [OF True prod.collapse] 1(2,3)
      by (simp add: encode_pixels_step length_encode_channels encode_channels_nth)
  qed
qed

lemma encode_pixels_alpha:
  "i mod 4 = 0 \<Longrightarrow> j mod 4 = 3 \<Longrightarrow> j < length data \<Longrightarrow>
   fst (encode_pixels onProgress totalPixels bits i data bi log) ! j = data ! j"
proof (induction onProgress totalPixels bits i data bi log rule: encode_pixels.induct)
  case (1 onProgress totalPixels bits i data bi log)
  show ?case
  proof (cases "i < length data \<and> bi < length bits")
    case False
    then show ?thesis by (simp add: encode_pixels_stop)
  next
    case True
    have "\<not> (i \<le> j \<and> j < i + 3)"
    proof
      assume "i \<le> j \<and> j < i + 3"
      then obtain c where c: "j = i + c" "c < 3"
        by (metis le_Suc_ex nat_add_left_cancel_less)
      then have "j mod 4 = c"
        using 1(2) by (simp add: mod_add_eq [symmetric, of i])
      with c 1(3) show False by simp
    qed
    then show ?thesis
      using True 1(1) [OF True prod.collapse] 1(2,3,4)
      by (auto simp add: encode_pixels_step length_encode_channels encode_channels_nth)
  qed
qed

lemma encode_pixels_upper:
  "j < length data \<Longrightarrow>
   fst (encode_pixels onProgress totalPixels bits i data bi log) ! j AND 0xFE = data ! j AND 0xFE"
proof (induction onProgress totalPixels bits i data bi log rule: encode_pixels.induct)
  case (1 onProgress totalPixels bits i data bi log)
  show ?case
  proof (cases "i < length data \<and> bi < length bits")
    case False
    then show ?thesis by (simp add: encode_pixels_stop)
  next
    case True
    then show ?thesis
      using 1(1) [OF True prod.collapse] 1(2)
      by (simp add: encode_pixels_step length_encode_channels encode_channels_nth write_upper)
  qed
qed


lemma encode_pixels_written:
  "bi + t < length bits \<Longrightarrow> i + 4 * (t div 3) + t mod 3 < length data \<Longrightarrow>
   (fst (encode_pixels onProgress totalPixels bits i data bi log) ! (i + 4 * (t div 3) + t mod 3)
      AND 1 = 1) = bits ! (bi + t)"
proof (induction onProgress totalPixels bits i data bi log arbitrary: t
    rule: encode_pixels.induct)
  case (1 onProgress totalPixels bits i data bi log)
  let ?d = "fst (encode_channels bits i 0 data bi)"
  let ?b = "snd (encode_channels bits i 0 data bi)"
  let ?log = "if onProgress \<and> i mod 12000 = 0
              then log @ [EncodeProgress i totalPixels] else log"
  from 1(2,3) have run: "i < length data \<and> bi < length bits"
    by simp
  have step: "encode_pixels onProgress totalPixels bits i data bi log =
      encode_pixels onProgress totalPixels bits (i + 4) ?d ?b ?log"
    using run by (rule encode_pixels_step)
  show ?case
  proof (cases "t < 3")
    case True
    then have idx: "i + 4 * (t div 3) + t mod 3 = i + t"
      by simp
    have "fst (encode_pixels onProgress totalPixels bits (i + 4) ?d ?b ?log) ! (i + t) =
        ?d ! (i + t)"
      using True 1(3) idx by (intro encode_pixels_below) (simp_all add: length_encode_channels)
    also have "\<dots> = (data ! (i + t) AND 0xFE) OR (if bits ! (bi + t) then 1 else 0)"
      using True 1(2,3) idx by (simp add: encode_channels_nth)
    finally show ?thesis
      by (simp only: step idx write_lsb)
  next
    case False
    then obtain s where s: "t = s + 3"
      by (metis add.commute le_Suc_ex not_less)
    then have ds: "t div 3 = Suc (s div 3)" "t mod 3 = s mod 3"
      by simp_all
    then have idx: "i + 4 * (t div 3) + t mod 3 = i + 4 + 4 * (s div 3) + s mod 3"
      by simp
    from 1(3) idx have "i + 2 < length data"
      by simp
    moreover from 1(2) s have "bi + (3 - 0) \<le> length bits"
      by simp
    ultimately have b: "?b = bi + 3"
      using encode_channels_snd [of 0 i data bi bits] by simp
    have "(fst (encode_pixels onProgress totalPixels bits (i + 4) ?d ?b ?log) !
          (i + 4 + 4 * (s div 3) + s mod 3) AND 1 = 1) = bits ! (?b + s)"
      using 1(2,3) s idx b
      by (intro 1(1) [OF run prod.collapse]) (simp_all add: length_encode_channels)
    also have "?b + s = bi + t"
      by (simp add: b s)
    finally show ?thesis
      by (simp only: step idx)
  qed
qed

lemma rgb_index_bound:
  "k < length (rgb_samples xs) \<Longrightarrow> 4 * (k div 3) + k mod 3 < length xs"
proof (induction xs arbitrary: k rule: rgb_samples.induct)
  case (1 r g b a rest)
  show ?case
  proof (cases "k < 3")
    case True
    then show ?thesis by simp
  next
    case False
    then obtain j where j: "k = j + 3" by (metis add.commute le_Suc_ex not_less)
    with 1(2) have "j < length (rgb_samples rest)" by simp
    then have *: "4 * (j div 3) + j mod 3 < length rest" by (rule 1(1))
    have "(j + 3) div 3 = Suc (j div 3)" "(j + 3) mod 3 = j mod 3" by simp_all
    with j * show ?thesis by simp
  qed
qed simp_all

lemma length_rgb_stream_encode_pixels:
  "length (rgb_stream (fst (encode_pixels onProgress totalPixels bits i data bi log))) =
     length (rgb_stream data)"
  by (simp add: length_rgb_stream length_rgb_samples length_encode_pixels)

lemma rgb_stream_encode_pixels:
  assumes "length bits \<le> length (rgb_stream data)"
  shows "take (length bits)
      (rgb_stream (fst (encode_pixels onProgress totalPixels bits 0 data 0 log))) = bits"
proof (rule nth_equalityI)
  let ?d = "fst (encode_pixels onProgress totalPixels bits 0 data 0 log)"
  show "length (take (length bits) (rgb_stream ?d)) = length bits"
    using assms by (simp add: length_rgb_stream_encode_pixels)
  fix k
  assume "k < length (take (length bits) (rgb_stream ?d))"
  then have k: "k < length bits" "k < length (rgb_samples ?d)"
    by (simp_all add: length_rgb_stream)
  then have "k < length (rgb_samples data)"
    by (simp add: length_rgb_samples length_encode_pixels)
  then have idx: "0 + 4 * (k div 3) + k mod 3 < length data"
    using rgb_index_bound [of k data] by simp
  have "take (length bits) (rgb_stream ?d) ! k =
      (?d ! (0 + 4 * (k div 3) + k mod 3) AND 1 = 1)"
    using k by (simp add: rgb_stream_def nth_rgb_samples)
  also have "\<dots> = bits ! (0 + k)"
    using k(1) idx by (intro encode_pixels_written) simp_all
  finally show "take (length bits) (rgb_stream ?d) ! k = bits ! k"
    by simp
qed

section \<open>Encoder and decoder on the bit stream\<close>

lemma header_pixels_stream: "fst (header_pixels data 0 [] 0) = take 32 (rgb_stream data)"
  using header_pixels_eq [of data 0 "[]" 0] by simp

lemma binaryToString_Nil: "binaryToString [] = []"
  by (simp add: binaryToString_def match_1_8_Nil)

lemma applyPassword_Nil: "applyPassword password [] = []"
  by (simp add: applyPassword_def xorWithKey_def split: option.splits)

text \<open>The result of the decoder in terms of the bit stream of the buffer.\<close>

lemma decodeMessage_stream:
  "fst (decodeMessage data password onProgress) =
     (case parseInt2 (take 32 (rgb_stream data)) of
        None \<Rightarrow> None
      | Some n \<Rightarrow>
          if n = 0 \<or> 1000000 < n then None
          else if applyPassword password
                    (binaryToString (take (n * 8) (drop 32 (rgb_stream data)))) = [] then None
          else Some (applyPassword password
                    (binaryToString (take (n * 8) (drop 32 (rgb_stream data))))))"
proof (cases "parseInt2 (take 32 (rgb_stream data))")
  case None
  then show ?thesis
    by (simp add: decodeMessage_def header_pixels_stream payload_pixels_NaN
        binaryToString_Nil applyPassword_Nil)
next
  case (Some n)
  have "(32::nat) div 3 * 4 = 40"
    by simp
  with Some show ?thesis
    by (simp add: decodeMessage_def header_pixels_stream Let_def case_prod_beta
        payload_pixels_32)
qed


lemma length_applyPassword: "length (applyPassword password m) = length m"
  by (simp add: applyPassword_def length_xorWithKey split: option.splits)

lemma applyPassword_bytes:
  "list_all (\<lambda>c. unat c < 256) m \<Longrightarrow> list_all (\<lambda>c. unat c < 256) (applyPassword password m)"
  by (simp add: applyPassword_def xorWithKey_bytes split: option.splits)

lemma applyPassword_involution: "applyPassword password (applyPassword password m) = m"
  by (simp add: applyPassword_def xorWithKey_involution split: option.splits)

lemma length_rgb_stream_image:
  "length data = 4 * (w * h) \<Longrightarrow> length (rgb_stream data) = 3 * (w * h)"
  by (simp add: length_rgb_stream length_rgb_samples)

lemma int_div8_less: "((x::int) div 8 < y) = (x < y * 8)"
  by arith

lemma capacity_check:
  "(calculateCapacity (int w) (int h) < int n + 4) = (w * h * 3 < 96 + 8 * n)"
proof -
  have "(calculateCapacity (int w) (int h) < int n + 4) =
      ((int (w * h * 3) - 64) div 8 < int n + 4)"
    by (simp add: calculateCapacity_def)
  also have "\<dots> = (int (w * h * 3) - 64 < (int n + 4) * 8)"
    by (rule int_div8_less)
  also have "\<dots> = (int (w * h * 3) < int (96 + 8 * n))"
    by auto
  also have "\<dots> = (w * h * 3 < 96 + 8 * n)"
    by (rule of_nat_less_iff)
  finally show ?thesis .
qed

lemma take_drop_take:
  "a + b \<le> c \<Longrightarrow> take a (drop b (take c xs)) = take a (drop b xs)"
  by (simp add: drop_take)

lemma encodeMessage_fits:
  assumes "96 + 8 * length m \<le> w * h * 3"
  shows "fst (encodeMessage w h data m password onProgress) =
           fst (encode_pixels onProgress (w * h) (frame m password) 0 data 0 [])"
    and "\<exists>log. snd (encodeMessage w h data m password onProgress) = Inr log"
  using assms capacity_check [of w h "length m"]
  by (simp_all add: encodeMessage_def Let_def length_applyPassword case_prod_beta frame_def)

lemma encodeMessage_too_long:
  assumes "w * h * 3 < 96 + 8 * length m"
  shows "encodeMessage w h data m password onProgress =
           (data, Inl (CapacityExceeded (calculateCapacity (int w) (int h))))"
  using assms capacity_check [of w h "length m"]
  by (simp add: encodeMessage_def Let_def length_applyPassword)

lemma frame_parts:
  assumes "list_all (\<lambda>c. unat c < 256) m" "length m < 2 ^ 32"
  shows "length (frame m password) = 64 + 8 * length m"
    and "take 32 (frame m password) = padStart 32 (toString2 (length m))"
    and "take (length m * 8) (drop 32 (frame m password)) =
           stringToBinary (applyPassword password m)"
proof -
  have h: "length (padStart 32 (toString2 (length m))) = 32"
    using assms(2) by (simp add: length_padStart)
  have p: "length (stringToBinary (applyPassword password m)) = 8 * length m"
    using assms(1) by (simp add: length_stringToBinary applyPassword_bytes length_applyPassword)
  have d: "length (stringToBinary [0, 0, 0, 0 :: jschar]) = 32"
    by (simp add: length_stringToBinary)
  show "length (frame m password) = 64 + 8 * length m"
    by (simp add: frame_def stringToBinary_append h p d)
  show "take 32 (frame m password) = padStart 32 (toString2 (length m))"
    by (simp add: frame_def h)
  show "take (length m * 8) (drop 32 (frame m password)) =
      stringToBinary (applyPassword password m)"
    by (simp add: frame_def stringToBinary_append h p mult.commute)
qed

lemma roundtrip:
  assumes size: "length data = 4 * (w * h)"
    and bytes: "list_all (\<lambda>c. unat c < 256) m"
    and nonempty: "m \<noteq> []"
    and gate: "length m \<le> 1000000"
    and fits: "96 + 8 * length m \<le> w * h * 3"
  shows "fst (decodeMessage (fst (encodeMessage w h data m password onProgress))
           password onProgress') = Some m"
proof -
  let ?bits = "frame m password"
  let ?d = "fst (encode_pixels onProgress (w * h) ?bits 0 data 0 [])"
  from gate have small: "length m < 2 ^ 32"
    by simp
  note parts = frame_parts [OF bytes small, of password]
  have "length ?bits \<le> length (rgb_stream data)"
    using fits by (simp add: parts(1) length_rgb_stream_image [OF size])
  then have written: "take (length ?bits) (rgb_stream ?d) = ?bits"
    by (rule rgb_stream_encode_pixels)
  have "take 32 (rgb_stream ?d) = take 32 (take (length ?bits) (rgb_stream ?d))"
    by (simp add: parts(1))
  then have header: "take 32 (rgb_stream ?d) = padStart 32 (toString2 (length m))"
    by (simp only: written parts(2))
  have "take (length m * 8) (drop 32 (rgb_stream ?d)) =
      take (length m * 8) (drop 32 (take (length ?bits) (rgb_stream ?d)))"
    by (rule take_drop_take [symmetric]) (simp add: parts(1))
  then have payload: "take (length m * 8) (drop 32 (rgb_stream ?d)) =
      stringToBinary (applyPassword password m)"
    by (simp only: written parts(3))
  have "fst (decodeMessage ?d password onProgress') = Some m"
    using nonempty gate
    by (simp add: decodeMessage_stream header parseInt2_padStart payload
        binaryToString_stringToBinary applyPassword_bytes [OF bytes] applyPassword_involution)
  then show ?thesis
    by (simp only: encodeMessage_fits(1) [OF fits])
qed

lemma stream_after_encode:
  assumes size: "length data = 4 * (w * h)"
    and bytes: "list_all (\<lambda>c. unat c < 256) m"
    and small: "length m < 2 ^ 32"
    and fits: "96 + 8 * length m \<le> w * h * 3"
  shows "take 32 (rgb_stream (fst (encodeMessage w h data m password onProgress))) =
           padStart 32 (toString2 (length m))"
    and "take (length m * 8)
           (drop 32 (rgb_stream (fst (encodeMessage w h data m password onProgress)))) =
           stringToBinary (applyPassword password m)"
proof -
  let ?bits = "frame m password"
  let ?d = "fst (encode_pixels onProgress (w * h) ?bits 0 data 0 [])"
  note parts = frame_parts [OF bytes small, of password]
  have "length ?bits \<le> length (rgb_stream data)"
    using fits by (simp add: parts(1) length_rgb_stream_image [OF size])
  then have written: "take (length ?bits) (rgb_stream ?d) = ?bits"
    by (rule rgb_stream_encode_pixels)
  have "take 32 (rgb_stream ?d) = take 32 (take (length ?bits) (rgb_stream ?d))"
    by (simp add: parts(1))
  then have "take 32 (rgb_stream ?d) = padStart 32 (toString2 (length m))"
    by (simp only: written parts(2))
  then show "take 32 (rgb_stream (fst (encodeMessage w h data m password onProgress))) =
      padStart 32 (toString2 (length m))"
    by (simp only: encodeMessage_fits(1) [OF fits])
  have "take (length m * 8) (drop 32 (rgb_stream ?d)) =
      take (length m * 8) (drop 32 (take (length ?bits) (rgb_stream ?d)))"
    by (rule take_drop_take [symmetric]) (simp add: parts(1))
  then have "take (length m * 8) (drop 32 (rgb_stream ?d)) =
      stringToBinary (applyPassword password m)"
    by (simp only: written parts(3))
  then show "take (length m * 8)
      (drop 32 (rgb_stream (fst (encodeMessage w h data m password onProgress)))) =
      stringToBinary (applyPassword password m)"
    by (simp only: encodeMessage_fits(1) [OF fits])
qed

lemma decode_gate_after_encode:
  assumes "length data = 4 * (w * h)"
    and "list_all (\<lambda>c. unat c < 256) m"
    and "length m < 2 ^ 32"
    and "96 + 8 * length m \<le> w * h * 3"
    and "m = [] \<or> 1000000 < length m"
  shows "fst (decodeMessage (fst (encodeMessage w h data m password onProgress))
           password' onProgress') = None"
  using assms(5)
  by (auto simp add: decodeMessage_stream stream_after_encode(1) [OF assms(1-4)]
      parseInt2_padStart)

lemma printableASCII_bytes: "printableASCII m \<Longrightarrow> list_all (\<lambda>c. unat c < 256) m"
  by (auto simp add: printableASCII_def list_all_iff)

lemma printableASCII_replicate: "32 \<le> unat c \<Longrightarrow> unat c \<le> 126 \<Longrightarrow> printableASCII (replicate n c)"
  by (simp add: printableASCII_def list_all_iff)

lemma not_isl_encode:
  "96 + 8 * length m \<le> w * h * 3 \<Longrightarrow> \<not> isl (snd (encodeMessage w h data m password onProgress))"
  using encodeMessage_fits(2) [of m w h data password onProgress] by auto

lemma encodeMessage_raises_iff:
  "isl (snd (encodeMessage w h data m password onProgress)) =
     (calculateCapacity (int w) (int h) < int (length m) + 4)"
  by (simp add: encodeMessage_def Let_def length_applyPassword case_prod_beta)

section \<open>From bits to characters and back\<close>

lemma bits_value_bound: "bits_value xs < 2 ^ length xs"
proof (induction xs rule: rev_induct)
  case Nil
  show ?case by (simp add: bits_value_def)
next
  case (snoc b xs)
  then show ?case by (simp add: bits_value_snoc)
qed

lemma bits_value_inj:
  "length xs = length ys \<Longrightarrow> bits_value xs = bits_value ys \<Longrightarrow> xs = ys"
proof (induction xs arbitrary: ys rule: rev_induct)
  case Nil
  then show ?case by simp
next
  case (snoc b xs)
  from snoc(2) obtain c zs where ys: "ys = zs @ [c]"
    by (cases ys rule: rev_cases) auto
  with snoc(2) have len: "length xs = length zs"
    by simp
  from snoc(3) ys have eq: "2 * bits_value xs + (if b then 1 else 0) =
      2 * bits_value zs + (if c then 1 else (0::nat))"
    by (simp only: bits_value_snoc)
  then have "b = c"
    by (cases b; cases c) (simp_all, presburger+)
  with eq have "bits_value xs = bits_value zs"
    by simp
  with len have "xs = zs"
    by (rule snoc(1))
  with \<open>b = c\<close> ys show ?case by simp
qed

lemma padStart_toString2_bits_value:
  assumes "length c = 8"
  shows "padStart 8 (toString2 (bits_value c)) = c"
proof (rule bits_value_inj)
  have "bits_value c < 2 ^ 8"
    using bits_value_bound [of c] assms by simp
  then show "length (padStart 8 (toString2 (bits_value c))) = length c"
    using assms by (simp add: length_padStart)
  show "bits_value (padStart 8 (toString2 (bits_value c))) = bits_value c"
    by (simp add: padStart_def bits_value_pad bits_value_toString2)
qed

lemma unat_fromCharCode_group:
  assumes "length c = 8"
  shows "unat (fromCharCode (parseInt2 c)) = bits_value c"
proof -
  have "bits_value c < 2 ^ 8"
    using bits_value_bound [of c] assms by simp
  then have "bits_value c < 2 ^ 16"
    by simp
  moreover have "c \<noteq> []"
    using assms by auto
  ultimately show ?thesis
    by (simp add: parseInt2_eq fromCharCode_def unat_of_nat)
qed

lemma stringToBinary_binaryToString:
  "length bits mod 8 = 0 \<Longrightarrow> stringToBinary (binaryToString bits) = bits"
proof (induction bits rule: match_1_8.induct)
  case (1 bs)
  show ?case
  proof (cases "bs = []")
    case True
    then show ?thesis
      by (simp add: binaryToString_def match_1_8_Nil stringToBinary_def)
  next
    case False
    with 1(2) have long: "8 \<le> length bs"
      by (cases "length bs < 8") auto
    then have l8: "length (take 8 bs) = 8" and rest8: "length (drop 8 bs) mod 8 = 0"
      using 1(2) by (simp_all add: mod_diff_eq [symmetric] le_mod_geq)
    have m: "match_1_8 bs = take 8 bs # match_1_8 (drop 8 bs)"
      using False by (subst match_1_8.simps) simp
    have "stringToBinary (binaryToString bs) =
        padStart 8 (toString2 (unat (fromCharCode (parseInt2 (take 8 bs))))) @
        stringToBinary (binaryToString (drop 8 bs))"
      by (simp add: binaryToString_def m stringToBinary_Cons)
    also have "\<dots> = take 8 bs @ drop 8 bs"
      by (simp only: unat_fromCharCode_group [OF l8] padStart_toString2_bits_value [OF l8]
          1(1) [OF False rest8])
    finally show ?thesis by simp
  qed
qed


lemma length_binaryToString:
  "length bits mod 8 = 0 \<Longrightarrow> 8 * length (binaryToString bits) = length bits"
proof (induction bits rule: match_1_8.induct)
  case (1 bs)
  show ?case
  proof (cases "bs = []")
    case True
    then show ?thesis
      by (simp add: binaryToString_def match_1_8_Nil)
  next
    case False
    with 1(2) have long: "8 \<le> length bs"
      by (cases "length bs < 8") auto
    then have rest8: "length (drop 8 bs) mod 8 = 0"
      using 1(2) by (simp add: mod_diff_eq [symmetric] le_mod_geq)
    have m: "match_1_8 bs = take 8 bs # match_1_8 (drop 8 bs)"
      using False by (subst match_1_8.simps) simp
    have "8 * length (binaryToString bs) = 8 + 8 * length (binaryToString (drop 8 bs))"
      by (simp add: binaryToString_def m)
    also have "\<dots> = 8 + length (drop 8 bs)"
      by (simp only: 1(1) [OF False rest8])
    finally show ?thesis
      using long by simp
  qed
qed

section \<open>The capacity\<close>

lemma calculateCapacity_eq: "calculateCapacity w h = (w * h * 3 - 64) div 8"
  by (simp add: calculateCapacity_def)

text \<open>
  Claim C7 says that the capacity is \<open>floor((width*height*3 - 64) / 8)\<close> clamped to 0 when
  \<open>width*height*3 - 64\<close> is negative. The function has no clamp: for a 0 by 0 image it
  returns \<open>-8\<close>, where the claim wants 0.
\<close>

theorem calculateCapacity_clamp_counterexample:
  "calculateCapacity 0 0 = - 8 \<and>
   calculateCapacity 0 0 \<noteq> (if (0::int) * 0 * 3 - 64 < 0 then 0 else (0 * 0 * 3 - 64) div 8)"
  by (simp add: calculateCapacity_def)

text \<open>
  Claim C7, amended: for all non-negative widths and heights with
  \<open>width*height*3 < 2^53\<close> (the range in which the arithmetic of the function is exact),
  the capacity is \<open>floor((width*height*3 - 64) / 8)\<close>, with no clamping. It is a number for
  every such input (the function cannot fail), and it is negative exactly when
  \<open>width*height*3 < 64\<close>: \<open>-8\<close> for a 0 by 0 image.
\<close>

theorem calculateCapacity_floor:
  assumes "0 \<le> w" and "0 \<le> h" and "w * h * 3 < 2 ^ 53"
  shows "calculateCapacity w h = (w * h * 3 - 64) div 8 \<and>
         (calculateCapacity w h < 0) = (w * h * 3 < 64)"
  by (auto simp add: calculateCapacity_def)

theorem calculateCapacity_floor_witness:
  "(0::int) \<le> 10 \<and> (10::int) * 10 * 3 < 2 ^ 53 \<and>
   calculateCapacity 10 10 = (10 * 10 * 3 - 64) div 8 \<and> calculateCapacity 10 10 = 29 \<and>
   (0::int) \<le> 0 \<and> (0::int) * 0 * 3 < 2 ^ 53 \<and>
   calculateCapacity 0 0 = (0 * 0 * 3 - 64) div 8 \<and> calculateCapacity 0 0 = - 8 \<and>
   (calculateCapacity 0 0 < 0) = ((0::int) * 0 * 3 < 64)"
  using calculateCapacity_floor [of 10 10] calculateCapacity_floor [of 0 0] by simp

section \<open>Failure leaves the buffer alone\<close>

text \<open>
  Claim C4: whenever \<open>encodeMessage\<close> fails with \<open>CapacityExceeded\<close>, the pixel buffer is
  unchanged: the capacity check comes before the first write, so the failure path writes
  nothing.
\<close>

theorem encodeMessage_all_or_nothing:
  "snd (encodeMessage width height data message password onProgress) = Inl e \<Longrightarrow>
   fst (encodeMessage width height data message password onProgress) = data"
  by (simp add: encodeMessage_def Let_def case_prod_beta split: if_splits)

theorem encodeMessage_all_or_nothing_witness:
  "snd (encodeMessage 1 1 [10, 20, 30, 255] [104, 105] None False) = Inl (CapacityExceeded (- 8)) \<and>
   fst (encodeMessage 1 1 [10, 20, 30, 255] [104, 105] None False) = [10, 20, 30, 255]"
proof -
  have "snd (encodeMessage 1 1 [10, 20, 30, 255] [104, 105] None False) =
      Inl (CapacityExceeded (- 8))"
    by (simp add: encodeMessage_def Let_def calculateCapacity_def applyPassword_def)
  then show ?thesis
    using encodeMessage_all_or_nothing [of 1 1 "[10, 20, 30, 255]" "[104, 105]" None False
        "CapacityExceeded (- 8)"]
    by simp
qed

section \<open>The empty password\<close>

text \<open>
  Claim C10: for every pixel buffer, message and progress callback, \<open>encodeMessage\<close> with
  the empty string as password leaves the same buffer (and makes the same progress calls)
  as with no password, and \<open>decodeMessage\<close> with the empty string as password returns the
  same result as with no password: both skip the masking step.
\<close>

theorem empty_password_is_no_password:
  "encodeMessage width height data message (Some []) onProgress =
     encodeMessage width height data message None onProgress \<and>
   decodeMessage data (Some []) onProgress = decodeMessage data None onProgress"
proof -
  have same: "applyPassword (Some []) = applyPassword None"
    by (rule ext) (simp add: applyPassword_def)
  show ?thesis
    unfolding encodeMessage_def decodeMessage_def same by simp
qed

theorem empty_password_is_no_password_witness:
  "encodeMessage 1 1 [10, 20, 30, 255] [104, 105] (Some []) True =
     encodeMessage 1 1 [10, 20, 30, 255] [104, 105] None True \<and>
   decodeMessage [10, 20, 30, 255] (Some []) True = decodeMessage [10, 20, 30, 255] None True"
  by (rule empty_password_is_no_password)

section \<open>What the encoder may change\<close>

text \<open>
  Claim C6: for every pixel buffer, \<open>encodeMessage\<close> keeps the length of the buffer,
  leaves every alpha sample (index \<open>i\<close> with \<open>i mod 4 = 3\<close>) as it was, and changes at most
  the least-significant bit of any sample: the upper seven bits (the sample under the mask
  \<open>0xFE\<close>) stay.
\<close>

theorem encodeMessage_touches_only_rgb_lsbs:
  "length (fst (encodeMessage width height data message password onProgress)) = length data \<and>
   (\<forall>i<length data.
      (i mod 4 = 3 \<longrightarrow>
         fst (encodeMessage width height data message password onProgress) ! i = data ! i) \<and>
      fst (encodeMessage width height data message password onProgress) ! i AND 0xFE =
        data ! i AND 0xFE)"
  by (simp add: encodeMessage_def Let_def case_prod_beta length_encode_pixels
      encode_pixels_alpha encode_pixels_upper)

theorem encodeMessage_touches_only_rgb_lsbs_witness:
  "(\<exists>log. snd (encodeMessage 6 6 (replicate 144 255) [65] None False) = Inr log) \<and>
   length (fst (encodeMessage 6 6 (replicate 144 255) [65] None False)) = 144 \<and>
   (3::nat) < length (replicate 144 (255::sample)) \<and> (3::nat) mod 4 = 3 \<and>
   fst (encodeMessage 6 6 (replicate 144 255) [65] None False) ! 3 = 255 \<and>
   fst (encodeMessage 6 6 (replicate 144 255) [65] None False) ! 3 AND 0xFE = 0xFE"
  using encodeMessage_touches_only_rgb_lsbs [of 6 6 "replicate 144 255" "[65]" None False]
    encodeMessage_fits(2) [of "[65]" 6 6 "replicate 144 255" None False]
  by simp

section \<open>Header and payload on one stream\<close>

text \<open>
  Claim C8: in \<open>decodeMessage\<close>, after the 32 header bits are read from the stream of
  R, G, B least-significant bits (stream position \<open>k\<close> is channel \<open>k mod 3\<close> of pixel
  \<open>k div 3\<close>, the alpha samples being skipped), the payload read continues at position 32 of
  the same stream. The result of \<open>decodeMessage\<close> is made of the number \<open>n\<close> that the first
  32 bits of the stream denote and of the \<open>n * 8\<close> bits that follow them; and when the
  length passes the gate and the stream has \<open>32 + 8 * n\<close> bits, the message returned has
  \<open>n\<close> characters whose bits (the characters as they were before unmasking, eight bits
  each) are exactly the stream positions \<open>32\<close> to \<open>32 + 8 * n - 1\<close>, in order, none skipped
  and none read twice.
\<close>

theorem decodeMessage_payload_from_bit_32:
  "fst (decodeMessage data password onProgress) =
     (case parseInt2 (take 32 (rgb_stream data)) of
        None \<Rightarrow> None
      | Some n \<Rightarrow>
          if n = 0 \<or> 1000000 < n then None
          else if applyPassword password
                    (binaryToString (take (n * 8) (drop 32 (rgb_stream data)))) = [] then None
          else Some (applyPassword password
                    (binaryToString (take (n * 8) (drop 32 (rgb_stream data)))))) \<and>
   (\<forall>k<length (rgb_stream data).
      rgb_stream data ! k = (data ! (4 * (k div 3) + k mod 3) AND 1 = 1)) \<and>
   (\<forall>n. parseInt2 (take 32 (rgb_stream data)) = Some n \<and> 1 \<le> n \<and> n \<le> 1000000 \<and>
        32 + n * 8 \<le> length (rgb_stream data) \<longrightarrow>
      (\<exists>m. fst (decodeMessage data password onProgress) = Some m \<and> length m = n \<and>
         length (stringToBinary (applyPassword password m)) = n * 8 \<and>
         (\<forall>k<n * 8.
            stringToBinary (applyPassword password m) ! k = rgb_stream data ! (32 + k))))"
proof (intro conjI allI impI)
  show "fst (decodeMessage data password onProgress) =
     (case parseInt2 (take 32 (rgb_stream data)) of
        None \<Rightarrow> None
      | Some n \<Rightarrow>
          if n = 0 \<or> 1000000 < n then None
          else if applyPassword password
                    (binaryToString (take (n * 8) (drop 32 (rgb_stream data)))) = [] then None
          else Some (applyPassword password
                    (binaryToString (take (n * 8) (drop 32 (rgb_stream data))))))"
    by (rule decodeMessage_stream)
next
  fix k
  assume "k < length (rgb_stream data)"
  then show "rgb_stream data ! k = (data ! (4 * (k div 3) + k mod 3) AND 1 = 1)"
    by (simp add: rgb_stream_def nth_rgb_samples)
next
  fix n
  assume a: "parseInt2 (take 32 (rgb_stream data)) = Some n \<and> 1 \<le> n \<and> n \<le> 1000000 \<and>
      32 + n * 8 \<le> length (rgb_stream data)"
  let ?P = "take (n * 8) (drop 32 (rgb_stream data))"
  let ?s = "binaryToString ?P"
  let ?m = "applyPassword password ?s"
  from a have lenP: "length ?P = n * 8"
    by auto
  then have mod8: "length ?P mod 8 = 0"
    by simp
  from length_binaryToString [OF mod8] lenP have lens: "length ?s = n"
    by simp
  with a have "?m \<noteq> []"
    using length_applyPassword [of password ?s] by auto
  with a have dec: "fst (decodeMessage data password onProgress) = Some ?m"
    by (simp add: decodeMessage_stream)
  have bits: "stringToBinary (applyPassword password ?m) = ?P"
    by (simp only: applyPassword_involution stringToBinary_binaryToString [OF mod8])
  have "stringToBinary (applyPassword password ?m) ! k = rgb_stream data ! (32 + k)"
    if "k < n * 8" for k
    using that a by (simp only: bits) simp
  with dec lens lenP bits
  show "\<exists>m. fst (decodeMessage data password onProgress) = Some m \<and> length m = n \<and>
         length (stringToBinary (applyPassword password m)) = n * 8 \<and>
         (\<forall>k<n * 8.
            stringToBinary (applyPassword password m) ! k = rgb_stream data ! (32 + k))"
    by (intro exI [of _ ?m]) (simp add: length_applyPassword)
qed

theorem decodeMessage_payload_from_bit_32_witness:
  "parseInt2 (take 32 (rgb_stream
      (fst (encodeMessage 10 10 (replicate 400 0) [104, 105] None False)))) = Some 2 \<and>
   (1::nat) \<le> 2 \<and> (2::nat) \<le> 1000000 \<and>
   32 + 2 * 8 \<le> length (rgb_stream
      (fst (encodeMessage 10 10 (replicate 400 0) [104, 105] None False))) \<and>
   fst (decodeMessage (fst (encodeMessage 10 10 (replicate 400 0) [104, 105] None False))
      None False) = Some [104, 105] \<and>
   stringToBinary [104, 105] ! 0 =
     rgb_stream (fst (encodeMessage 10 10 (replicate 400 0) [104, 105] None False)) ! (32 + 0) \<and>
   stringToBinary [104, 105] ! 15 =
     rgb_stream (fst (encodeMessage 10 10 (replicate 400 0) [104, 105] None False)) ! (32 + 15)"
proof -
  let ?D = "fst (encodeMessage 10 10 (replicate 400 0) [104, 105] None False)"
  have fits: "96 + 8 * length [104, 105 :: jschar] \<le> 10 * 10 * 3"
    by simp
  have header: "parseInt2 (take 32 (rgb_stream ?D)) = Some 2"
    using stream_after_encode(1) [of "replicate 400 0" 10 10 "[104, 105]" None False]
    by (simp add: parseInt2_padStart)
  have len: "length (rgb_stream ?D) = 300"
    by (simp add: encodeMessage_fits(1) [OF fits] length_rgb_stream_encode_pixels
        length_rgb_stream_image [of _ 10 10])
  have dec: "fst (decodeMessage ?D None False) = Some [104, 105]"
    by (rule roundtrip) simp_all
  have "\<exists>m. fst (decodeMessage ?D None False) = Some m \<and> length m = 2 \<and>
         length (stringToBinary (applyPassword None m)) = 2 * 8 \<and>
         (\<forall>k<2 * 8. stringToBinary (applyPassword None m) ! k = rgb_stream ?D ! (32 + k))"
    by (rule decodeMessage_payload_from_bit_32 [of ?D None False, THEN conjunct2,
          THEN conjunct2, THEN spec, THEN mp])
      (simp add: header len)
  with dec have "\<forall>k<2 * 8. stringToBinary [104, 105] ! k = rgb_stream ?D ! (32 + k)"
    by (simp add: applyPassword_def)
  then have "stringToBinary [104, 105] ! 0 = rgb_stream ?D ! (32 + 0)"
    and "stringToBinary [104, 105] ! 15 = rgb_stream ?D ! (32 + 15)"
    by simp_all
  with header len dec show ?thesis
    by simp
qed

section \<open>When the decoder finds nothing\<close>

text \<open>
  Claim C5: \<open>decodeMessage\<close> returns \<open>null\<close> (here \<open>None\<close>) exactly when the declared length
  read from the first 32 least-significant bits is \<open>\<le> 0\<close> or \<open>> 1000000\<close>, or when the final
  decoded string is empty; in every other case it returns the decoded string.
\<close>

theorem decodeMessage_NotFound:
  "fst (decodeMessage data password onProgress) =
     (if (case declaredLength data of None \<Rightarrow> False | Some n \<Rightarrow> n \<le> 0 \<or> 1000000 < n) \<or>
         decodedString data password = []
      then None else Some (decodedString data password))"
  by (cases "declaredLength data")
    (auto simp add: decodeMessage_stream declaredLength_def decodedString_def
      binaryToString_Nil applyPassword_Nil)

theorem decodeMessage_NotFound_witness:
  "declaredLength [] = None \<and> decodedString [] None = [] \<and>
   fst (decodeMessage [] None False) = None"
  using decodeMessage_NotFound [of "[]" None False]
  by (simp add: declaredLength_def decodedString_def rgb_stream_def parseInt2_def
      binaryToString_Nil applyPassword_Nil)

section \<open>A trailing group of fewer than eight bits\<close>

text \<open>
  Claim C9 says that a trailing group of fewer than 8 bits is read as if zero-padded on
  the right. \<open>binaryToString\<close> gives the group to \<open>parseInt\<close> as it is: the single bit
  \<open>1\<close> becomes the character code 1, where padding on the right would give 128.
\<close>

theorem binaryToString_right_padding_counterexample:
  "binaryToString [True] = [1] \<and>
   binaryToString ([True] @ [False, False, False, False, False, False, False]) = [128]"
  by (simp add: binaryToString_def match_1_8.simps parseInt2_def fromCharCode_def)

lemma match_1_8_full:
  "length full mod 8 = 0 \<Longrightarrow> match_1_8 (full @ rest) = match_1_8 full @ match_1_8 rest"
proof (induction full rule: match_1_8.induct)
  case (1 bs)
  show ?case
  proof (cases "bs = []")
    case True
    then show ?thesis by (simp add: match_1_8_Nil)
  next
    case False
    with 1(2) have long: "8 \<le> length bs"
      by (cases "length bs < 8") auto
    then have l8: "length (take 8 bs) = 8" and rest8: "length (drop 8 bs) mod 8 = 0"
      using 1(2) by (simp_all add: mod_diff_eq [symmetric] le_mod_geq)
    have "match_1_8 (bs @ rest) = match_1_8 (take 8 bs @ (drop 8 bs @ rest))"
      by (simp only: append_assoc [symmetric] append_take_drop_id)
    also have "\<dots> = take 8 bs # match_1_8 (drop 8 bs @ rest)"
      by (rule match_1_8_append [OF l8])
    also have "\<dots> = take 8 bs # (match_1_8 (drop 8 bs) @ match_1_8 rest)"
      by (simp only: 1(1) [OF False rest8])
    also have "\<dots> = match_1_8 bs @ match_1_8 rest"
      using False by (subst (2) match_1_8.simps) simp
    finally show ?thesis .
  qed
qed

lemma match_1_8_short: "part \<noteq> [] \<Longrightarrow> length part \<le> 8 \<Longrightarrow> match_1_8 part = [part]"
  by (subst match_1_8.simps) (simp add: match_1_8_Nil)

text \<open>
  Claim C9, amended: a trailing group of fewer than 8 bits is read as a binary number on
  its own, that is as if zero-padded on the left: its bits are the least-significant bits
  of the resulting character code. A full group of 8 bits converts most significant bit
  first.
\<close>

theorem binaryToString_partial_group:
  assumes "length full mod 8 = 0" and "part \<noteq> []" and "length part < 8"
  shows "binaryToString (full @ part) = binaryToString full @ [of_nat (bits_value part)] \<and>
         binaryToString (full @ part) =
           binaryToString (full @ replicate (8 - length part) False @ part) \<and>
         binaryToString ([b7, b6, b5, b4, b3, b2, b1, b0] @ rest) =
           of_nat (128 * of_bool b7 + 64 * of_bool b6 + 32 * of_bool b5 + 16 * of_bool b4 +
             8 * of_bool b3 + 4 * of_bool b2 + 2 * of_bool b1 + of_bool b0) # binaryToString rest"
proof -
  have group: "binaryToString ([b7, b6, b5, b4, b3, b2, b1, b0] @ rest) =
           of_nat (128 * of_bool b7 + 64 * of_bool b6 + 32 * of_bool b5 + 16 * of_bool b4 +
             8 * of_bool b3 + 4 * of_bool b2 + 2 * of_bool b1 + of_bool b0) # binaryToString rest"
  proof -
    have "bits_value [b7, b6, b5, b4, b3, b2, b1, b0] =
        128 * of_bool b7 + 64 * of_bool b6 + 32 * of_bool b5 + 16 * of_bool b4 +
          8 * of_bool b3 + 4 * of_bool b2 + 2 * of_bool b1 + of_bool b0"
      by (simp add: bits_value_def of_bool_def [symmetric] split del: if_split)
    moreover have "match_1_8 ([b7, b6, b5, b4, b3, b2, b1, b0] @ rest) =
        [b7, b6, b5, b4, b3, b2, b1, b0] # match_1_8 rest"
      by (rule match_1_8_append) simp
    moreover have "parseInt2 [b7, b6, b5, b4, b3, b2, b1, b0] =
        Some (bits_value [b7, b6, b5, b4, b3, b2, b1, b0])"
      by (simp add: parseInt2_eq)
    ultimately show ?thesis
      by (simp only: binaryToString_def list.map fromCharCode_def option.case)
  qed
  have short: "binaryToString part = [of_nat (bits_value part)]"
    using assms(2,3) by (simp add: binaryToString_def match_1_8_short parseInt2_eq fromCharCode_def)
  have "binaryToString (replicate (8 - length part) False @ part) = [of_nat (bits_value part)]"
    using assms(2,3)
    by (simp add: binaryToString_def match_1_8_short parseInt2_eq fromCharCode_def bits_value_pad)
  with short have partial: "binaryToString (full @ part) =
           binaryToString full @ [of_nat (bits_value part)] \<and>
         binaryToString (full @ part) =
           binaryToString (full @ replicate (8 - length part) False @ part)"
    by (simp add: binaryToString_def match_1_8_full [OF assms(1)])
  show ?thesis
    by (rule conjI [OF conjunct1 [OF partial] conjI [OF conjunct2 [OF partial] group]])
qed

theorem binaryToString_partial_group_witness:
  "length ([]::binary) mod 8 = 0 \<and> [True, False, True] \<noteq> [] \<and> length [True, False, True] < 8 \<and>
   binaryToString [True, False, True] = [5] \<and>
   binaryToString [True, False, True] =
     binaryToString (replicate 5 False @ [True, False, True]) \<and>
   binaryToString [False, True, False, False, False, False, False, True, True] = [65, 1]"
  using binaryToString_partial_group [of "[]" "[True, False, True]"
      False True False False False False False True "[True]"]
    binaryToString_partial_group [of "[]" "[True]"]
  by (auto simp add: binaryToString_Nil bits_value_def)

section \<open>Round trip\<close>

text \<open>
  Claim C1 says that for every pixel buffer with \<open>width*height*3 \<ge> 64 + 8*len(m)\<close> and
  every printable-ASCII message \<open>m\<close>, encoding \<open>m\<close> with no password and decoding the result
  with no password returns \<open>m\<close>. Three inputs within these bounds where it does not: the
  empty message in a 4 by 8 image (the encoder succeeds, the length header reads 0 and the
  decoder returns \<open>null\<close>); a message of 1000001 characters in a 1000 by 2700 image (the
  encoder succeeds, the decoder refuses a declared length above 1000000); a message of 4
  characters in a 4 by 8 image, whose capacity is 4 (the encoder compares the message with
  its delimiter, 8 characters, with the capacity and throws).
\<close>

theorem roundtrip_without_password_counterexample:
  "(length (replicate 128 (0::sample)) = 4 * (4 * 8) \<and> printableASCII [] \<and>
    64 + 8 * length ([]::jsstring) \<le> 4 * 8 * 3 \<and>
    \<not> isl (snd (encodeMessage 4 8 (replicate 128 0) [] None False)) \<and>
    fst (decodeMessage (fst (encodeMessage 4 8 (replicate 128 0) [] None False)) None False) =
      None) \<and>
   (length (replicate 10800000 (0::sample)) = 4 * (1000 * 2700) \<and>
    printableASCII (replicate 1000001 97) \<and>
    64 + 8 * length (replicate 1000001 (97::jschar)) \<le> 1000 * 2700 * 3 \<and>
    \<not> isl (snd (encodeMessage 1000 2700 (replicate 10800000 0) (replicate 1000001 97)
       None False)) \<and>
    fst (decodeMessage (fst (encodeMessage 1000 2700 (replicate 10800000 0)
       (replicate 1000001 97) None False)) None False) = None) \<and>
   (length (replicate 128 (0::sample)) = 4 * (4 * 8) \<and> printableASCII [97, 98, 99, 100] \<and>
    64 + 8 * length [97, 98, 99, 100 :: jschar] \<le> 4 * 8 * 3 \<and>
    encodeMessage 4 8 (replicate 128 0) [97, 98, 99, 100] None False =
      (replicate 128 0, Inl (CapacityExceeded 4)))"
proof -
  have a: "fst (decodeMessage (fst (encodeMessage 4 8 (replicate 128 0) [] None False)) None
      False) = None"
    by (rule decode_gate_after_encode) simp_all
  have b: "fst (decodeMessage (fst (encodeMessage 1000 2700 (replicate 10800000 0)
       (replicate 1000001 97) None False)) None False) = None"
    by (rule decode_gate_after_encode) (simp_all add: list_all_iff)
  have c: "encodeMessage 4 8 (replicate 128 0) [97, 98, 99, 100] None False =
      (replicate 128 0, Inl (CapacityExceeded (calculateCapacity (int 4) (int 8))))"
    by (rule encodeMessage_too_long) simp
  have "\<not> isl (snd (encodeMessage 4 8 (replicate 128 0) [] None False))"
    by (rule not_isl_encode) simp
  moreover have "\<not> isl (snd (encodeMessage 1000 2700 (replicate 10800000 0)
      (replicate 1000001 97) None False))"
    by (rule not_isl_encode) simp
  ultimately show ?thesis
    using a b c
    by (simp add: printableASCII_replicate calculateCapacity_def) (simp add: printableASCII_def)
qed

text \<open>
  Claim C1, amended: for every pixel buffer of \<open>width * height\<close> pixels, four samples each,
  and every printable-ASCII message \<open>m\<close> with \<open>1 \<le> len(m) \<le> 1000000\<close> and
  \<open>width*height*3 \<ge> 96 + 8*len(m)\<close>, encoding \<open>m\<close> with no password succeeds, and decoding
  the resulting buffer with no password returns exactly \<open>m\<close>.
\<close>

theorem roundtrip_without_password:
  assumes "length data = 4 * (width * height)"
    and "printableASCII m"
    and "1 \<le> length m" and "length m \<le> 1000000"
    and "96 + 8 * length m \<le> width * height * 3"
  shows "\<not> isl (snd (encodeMessage width height data m None onProgress)) \<and>
         fst (decodeMessage (fst (encodeMessage width height data m None onProgress))
           None onProgress') = Some m"
proof -
  from assms(3) have "m \<noteq> []"
    by auto
  with assms show ?thesis
    by (simp add: not_isl_encode roundtrip printableASCII_bytes)
qed

theorem roundtrip_without_password_witness:
  "length (replicate 400 (0::sample)) = 4 * (10 * 10) \<and> printableASCII [104, 105] \<and>
   1 \<le> length [104, 105 :: jschar] \<and> length [104, 105 :: jschar] \<le> 1000000 \<and>
   96 + 8 * length [104, 105 :: jschar] \<le> 10 * 10 * 3 \<and>
   \<not> isl (snd (encodeMessage 10 10 (replicate 400 0) [104, 105] None True)) \<and>
   fst (decodeMessage (fst (encodeMessage 10 10 (replicate 400 0) [104, 105] None True))
     None True) = Some [104, 105]"
  using roundtrip_without_password [of "replicate 400 0" 10 10 "[104, 105]" True True]
  by (simp add: printableASCII_def)

text \<open>
  Claim C2 says the same for every non-empty password \<open>p\<close>, used for encoding and for
  decoding. The same three kinds of input refute it: the empty message, a message of
  1000001 characters, and a message of 3 characters in a 6 by 6 image, whose capacity is 5.
\<close>

theorem roundtrip_with_password_counterexample:
  "(length (replicate 128 (7::sample)) = 4 * (4 * 8) \<and> printableASCII [] \<and>
    [112, 119] \<noteq> ([]::jsstring) \<and>
    64 + 8 * length ([]::jsstring) \<le> 4 * 8 * 3 \<and>
    \<not> isl (snd (encodeMessage 4 8 (replicate 128 7) [] (Some [112, 119]) False)) \<and>
    fst (decodeMessage (fst (encodeMessage 4 8 (replicate 128 7) [] (Some [112, 119]) False))
      (Some [112, 119]) False) = None) \<and>
   (length (replicate 12000000 (7::sample)) = 4 * (1500 * 2000) \<and>
    printableASCII (replicate 1000001 120) \<and>
    64 + 8 * length (replicate 1000001 (120::jschar)) \<le> 1500 * 2000 * 3 \<and>
    \<not> isl (snd (encodeMessage 1500 2000 (replicate 12000000 7) (replicate 1000001 120)
       (Some [112, 119]) False)) \<and>
    fst (decodeMessage (fst (encodeMessage 1500 2000 (replicate 12000000 7)
       (replicate 1000001 120) (Some [112, 119]) False)) (Some [112, 119]) False) = None) \<and>
   (length (replicate 144 (7::sample)) = 4 * (6 * 6) \<and> printableASCII [104, 105, 33] \<and>
    64 + 8 * length [104, 105, 33 :: jschar] \<le> 6 * 6 * 3 \<and>
    encodeMessage 6 6 (replicate 144 7) [104, 105, 33] (Some [112, 119]) False =
      (replicate 144 7, Inl (CapacityExceeded 5)))"
proof -
  have a: "fst (decodeMessage (fst (encodeMessage 4 8 (replicate 128 7) [] (Some [112, 119])
      False)) (Some [112, 119]) False) = None"
    by (rule decode_gate_after_encode) simp_all
  have b: "fst (decodeMessage (fst (encodeMessage 1500 2000 (replicate 12000000 7)
       (replicate 1000001 120) (Some [112, 119]) False)) (Some [112, 119]) False) = None"
    by (rule decode_gate_after_encode) (simp_all add: list_all_iff)
  have c: "encodeMessage 6 6 (replicate 144 7) [104, 105, 33] (Some [112, 119]) False =
      (replicate 144 7, Inl (CapacityExceeded (calculateCapacity (int 6) (int 6))))"
    by (rule encodeMessage_too_long) simp
  have "\<not> isl (snd (encodeMessage 4 8 (replicate 128 7) [] (Some [112, 119]) False))"
    by (rule not_isl_encode) simp
  moreover have "\<not> isl (snd (encodeMessage 1500 2000 (replicate 12000000 7)
      (replicate 1000001 120) (Some [112, 119]) False))"
    by (rule not_isl_encode) simp
  ultimately show ?thesis
    using a b c
    by (simp add: printableASCII_replicate calculateCapacity_def) (simp add: printableASCII_def)
qed

text \<open>
  Claim C2, amended: for every pixel buffer of \<open>width * height\<close> pixels, four samples each,
  every printable-ASCII message \<open>m\<close> with \<open>1 \<le> len(m) \<le> 1000000\<close> and
  \<open>width*height*3 \<ge> 96 + 8*len(m)\<close>, and every non-empty password \<open>p\<close>, encoding \<open>m\<close> with
  \<open>p\<close> succeeds and writes, after the 32 bits of the length, the message masked character by
  character with \<open>(simpleHash(p) + index) mod 256\<close>; the mask is its own inverse, and
  decoding the resulting buffer with the same \<open>p\<close> returns exactly \<open>m\<close>.
\<close>

theorem roundtrip_with_password:
  assumes "length data = 4 * (width * height)"
    and "printableASCII m"
    and "1 \<le> length m" and "length m \<le> 1000000"
    and "96 + 8 * length m \<le> width * height * 3"
    and "p \<noteq> []"
  shows "\<not> isl (snd (encodeMessage width height data m (Some p) onProgress)) \<and>
         take (length m * 8)
           (drop 32 (rgb_stream (fst (encodeMessage width height data m (Some p) onProgress)))) =
           stringToBinary (xorWithKey (simpleHash p) m) \<and>
         xorWithKey (simpleHash p) (xorWithKey (simpleHash p) m) = m \<and>
         fst (decodeMessage (fst (encodeMessage width height data m (Some p) onProgress))
           (Some p) onProgress') = Some m"
proof -
  from assms(3) have "m \<noteq> []"
    by auto
  moreover from assms(4) have "length m < 2 ^ 32"
    by simp
  moreover have "applyPassword (Some p) m = xorWithKey (simpleHash p) m"
    using assms(6) by (simp add: applyPassword_def)
  ultimately show ?thesis
    using assms stream_after_encode(2) [of data width height m "Some p" onProgress]
    by (simp add: not_isl_encode roundtrip printableASCII_bytes xorWithKey_involution)
qed

theorem roundtrip_with_password_witness:
  "length (replicate 400 (0::sample)) = 4 * (10 * 10) \<and> printableASCII [104, 105] \<and>
   1 \<le> length [104, 105 :: jschar] \<and> length [104, 105 :: jschar] \<le> 1000000 \<and>
   96 + 8 * length [104, 105 :: jschar] \<le> 10 * 10 * 3 \<and> [112, 119] \<noteq> ([]::jsstring) \<and>
   \<not> isl (snd (encodeMessage 10 10 (replicate 400 0) [104, 105] (Some [112, 119]) True)) \<and>
   fst (decodeMessage (fst (encodeMessage 10 10 (replicate 400 0) [104, 105] (Some [112, 119])
     True)) (Some [112, 119]) True) = Some [104, 105]"
  using roundtrip_with_password [of "replicate 400 0" 10 10 "[104, 105]" "[112, 119]" True True]
  by (simp add: printableASCII_def)

section \<open>The capacity check of the encoder\<close>

text \<open>
  Claim C3: \<open>encodeMessage\<close> raises \<open>CapacityExceeded\<close> exactly when the character count of
  the message exceeds \<open>calculateCapacity width height\<close>, and succeeds when the two are
  equal. The code at a 10 by 10 image, whose capacity is 29: it compares the length of the
  message with its four-character delimiter with the capacity, so it rejects a message of
  29 characters, and one of 26, leaving the buffer as it was; the longest message it
  accepts has 25 characters.
\<close>

theorem encodeMessage_rejects_message_of_capacity_length:
  "calculateCapacity 10 10 = 29 \<and> length (replicate 29 (97::jschar)) = 29 \<and>
   encodeMessage 10 10 (replicate 400 0) (replicate 29 97) None False =
     (replicate 400 0, Inl (CapacityExceeded 29)) \<and>
   encodeMessage 10 10 (replicate 400 0) (replicate 26 97) None False =
     (replicate 400 0, Inl (CapacityExceeded 29)) \<and>
   \<not> isl (snd (encodeMessage 10 10 (replicate 400 0) (replicate 25 97) None False))"
proof -
  have "encodeMessage 10 10 (replicate 400 0) (replicate n 97) None False =
      (replicate 400 0, Inl (CapacityExceeded (calculateCapacity (int 10) (int 10))))"
    if "26 \<le> n" for n
    using that by (intro encodeMessage_too_long) simp
  from this [of 29] this [of 26] show ?thesis
    by (simp add: calculateCapacity_def encodeMessage_raises_iff)
qed

end
